theory Spec2Isabelle
  imports Main "HOL-Library.Sublist"
begin

section \<open>The conflict resolver script \<^verbatim>\<open>resolve_conflicts.py\<close>\<close>

text \<open>
  The script walks the working directory, collects the TypeScript files below a
  \<^verbatim>\<open>client\<close> or \<^verbatim>\<open>server\<close> directory whose text contains the marker
  \<^verbatim>\<open><<<<<<< HEAD\<close>, and rewrites each of them with
  \<^verbatim>\<open>re.sub(conflict_pattern, r'\1', content, flags=re.DOTALL)\<close>.

  Python strings are modelled as \<^typ>\<open>string\<close>, a list of characters. The operating
  system (directory walk, reading and writing a text file) is not part of the script:
  it is a parameter of the model, a record of functions over a type \<open>'w\<close> of worlds.
  Exceptions are values of type \<open>exn\<close>; a computation that may raise returns a sum
  with \<open>Inl\<close> for the exception.
\<close>

subsection \<open>String operations of the Python library\<close>

type_synonym path = string

text \<open>\<^verbatim>\<open>sub in s\<close> on strings: \<open>sub\<close> occurs in \<open>s\<close> as a contiguous piece.\<close>

definition contains :: "string \<Rightarrow> string \<Rightarrow> bool" where
  "contains s sub = sublist sub s"

text \<open>\<^verbatim>\<open>s.endswith(suffixes)\<close> with a tuple of suffixes: one of them ends \<open>s\<close>.\<close>

definition endswith :: "string \<Rightarrow> string list \<Rightarrow> bool" where
  "endswith s sufs = list_ex (\<lambda>x. suffix x s) sufs"

text \<open>
  \<^verbatim>\<open>os.path.join(a, b)\<close> of \<^verbatim>\<open>posixpath\<close>: an absolute \<open>b\<close> replaces \<open>a\<close>; otherwise the
  two are joined by one separator unless \<open>a\<close> is empty or ends with one already.
\<close>

definition path_join :: "path \<Rightarrow> string \<Rightarrow> path" where
  "path_join a b =
     (if prefix ''/'' b then b
      else if a = [] \<or> suffix ''/'' a then a @ b
      else a @ ''/'' @ b)"

text \<open>The decimal numeral of a natural number, as an f-string prints \<^verbatim>\<open>len(...)\<close>.\<close>

definition digit :: "nat \<Rightarrow> char" where
  "digit d = char_of (48 + d)"

fun str_nat :: "nat \<Rightarrow> string" where
  "str_nat n = (if n < 10 then [digit n] else str_nat (n div 10) @ [digit (n mod 10)])"

subsection \<open>The regular expression\<close>

text \<open>
  The pattern \<^verbatim>\<open><<<<<<< HEAD.*?=======(.*?)>>>>>>> jules-testing-merges\<close> is a sequence
  of three literals, the lazy \<^verbatim>\<open>.*?\<close> and the lazy capturing group \<^verbatim>\<open>(.*?)\<close>. With
  \<^verbatim>\<open>re.DOTALL\<close> the dot matches every character, the newline included.
\<close>

datatype re_item = Lit string | AnyLazy | GroupAnyLazy

definition start_marker :: string where
  "start_marker = ''<<<<<<< HEAD''"

definition separator :: string where
  "separator = ''=======''"

definition end_marker :: string where
  "end_marker = ''>>>>>>> jules-testing-merges''"

definition conflict_pattern :: "re_item list" where
  "conflict_pattern =
     [Lit start_marker, AnyLazy, Lit separator, GroupAnyLazy, Lit end_marker]"

text \<open>
  The backtracking matcher of \<^verbatim>\<open>re\<close>, anchored at the beginning of \<open>s\<close>. A literal
  must be a prefix of the input. A lazy star first tries the rest of the pattern at
  the current position and takes one more character only when that fails, so the
  first success is the one with the fewest characters taken. The result is the text
  of group 1 and the input left after the match; \<open>None\<close> is no match.
\<close>

fun re_match :: "re_item list \<Rightarrow> string \<Rightarrow> (string \<times> string) option" where
  "re_match [] s = Some ([], s)"
| "re_match (Lit l # ps) s =
     (if prefix l s then re_match ps (drop (length l) s) else None)"
| "re_match (AnyLazy # ps) s =
     (case re_match ps s of
        Some m \<Rightarrow> Some m
      | None \<Rightarrow> (case s of [] \<Rightarrow> None | c # s' \<Rightarrow> re_match (AnyLazy # ps) s'))"
| "re_match (GroupAnyLazy # ps) s =
     (case re_match ps s of
        Some (g, r) \<Rightarrow> Some ([], r)
      | None \<Rightarrow>
          (case s of
             [] \<Rightarrow> None
           | c # s' \<Rightarrow>
               (case re_match (GroupAnyLazy # ps) s' of
                  None \<Rightarrow> None
                | Some (g, r) \<Rightarrow> Some (c # g, r))))"

text \<open>
  \<^verbatim>\<open>re.sub(pattern, r'\1', s)\<close>: scan \<open>s\<close> from the left; where the pattern matches,
  emit group 1 in place of the match and go on after it; where it does not, copy one
  character and try at the next position. Text put in by a replacement is never
  scanned again. The second branch of the \<open>if\<close> is for a match that takes no
  character, after which the scan moves on by one character; a match of
  \<open>conflict_pattern\<close> takes its three literals at least, so the script never
  reaches that branch (lemma \<open>conflict_match_shorter\<close> below).
\<close>

function re_sub :: "re_item list \<Rightarrow> string \<Rightarrow> string" where
  "re_sub ps s =
     (case re_match ps s of
        Some (g, r) \<Rightarrow>
          (if length r < length s then g @ re_sub ps r
           else g @ (case s of [] \<Rightarrow> [] | c # s' \<Rightarrow> c # re_sub ps s'))
      | None \<Rightarrow> (case s of [] \<Rightarrow> [] | c # s' \<Rightarrow> c # re_sub ps s'))"
  by pat_completeness auto
termination
  by (relation "measure (\<lambda>(ps, s). length s)") auto

text \<open>
  The transformation of a file's content by the Resolver: the expression
  \<^verbatim>\<open>re.sub(conflict_pattern, r'\1', content, flags=re.DOTALL)\<close> of
  \<^verbatim>\<open>resolve_conflicts\<close>.
\<close>

definition resolve_content :: "string \<Rightarrow> string" where
  "resolve_content content = re_sub conflict_pattern content"

subsection \<open>The operating system and the state of a run\<close>

datatype exn = FileNotFoundError | PermissionError | UnicodeDecodeError | OSError

text \<open>
  \<open>os_walk w\<close> is the sequence of triples \<^verbatim>\<open>(root, dirs, files)\<close> that
  \<^verbatim>\<open>os.walk('.')\<close> yields; \<open>read_text w p\<close> is \<^verbatim>\<open>open(p, 'r')\<close> followed by
  \<^verbatim>\<open>f.read()\<close>; \<open>write_text w p s\<close> is \<^verbatim>\<open>open(p, 'w')\<close> followed by
  \<^verbatim>\<open>f.write(s)\<close>, which gives the world after the call also when it raises (the
  file may have been truncated by then).

  The script is not alone on the file system: files can be removed or changed by
  others after the Scanner has read them. \<open>os_elapse w\<close> is what has become of the
  world \<open>w\<close> when the Resolver opens its next file, that is, between the Scanner's
  pass and the first file and between one file and the next. What others do while
  a file is being rewritten is part of the world that \<open>write_text\<close> returns.
\<close>

record 'w os =
  os_walk :: "'w \<Rightarrow> (path \<times> string list \<times> string list) list"
  read_text :: "'w \<Rightarrow> path \<Rightarrow> exn + string"
  write_text :: "'w \<Rightarrow> path \<Rightarrow> string \<Rightarrow> exn option \<times> 'w"
  os_elapse :: "'w \<Rightarrow> 'w"

record 'w state =
  world :: 'w
  stdout :: "string list"

definition print :: "string \<Rightarrow> 'w state \<Rightarrow> 'w state" where
  "print line st = st\<lparr>stdout := stdout st @ [line]\<rparr>"

subsection \<open>The Resolver\<close>

text \<open>
  \<^verbatim>\<open>resolve_conflicts(file_path)\<close> has no \<^verbatim>\<open>try\<close>: an exception of the read or of the
  write leaves the function. The result is the exception, if any, and the state
  reached.
\<close>

definition resolve_conflicts :: "'w os \<Rightarrow> path \<Rightarrow> 'w state \<Rightarrow> exn option \<times> 'w state" where
  "resolve_conflicts sys file_path st =
     (let st1 = print (''Resolving conflicts in '' @ file_path) st in
      case read_text sys (world st1) file_path of
        Inl e \<Rightarrow> (Some e, st1)
      | Inr content \<Rightarrow>
          (let resolved_content = resolve_content content in
           case write_text sys (world st1) file_path resolved_content of
             (Some e, w') \<Rightarrow> (Some e, st1\<lparr>world := w'\<rparr>)
           | (None, w') \<Rightarrow> (None, st1\<lparr>world := w'\<rparr>)))"

text \<open>
  The loop \<^verbatim>\<open>for file_path in conflict_files: resolve_conflicts(file_path)\<close>. Each
  call meets the world as it has become since the step before.
\<close>

fun resolve_all :: "'w os \<Rightarrow> path list \<Rightarrow> 'w state \<Rightarrow> exn option \<times> 'w state" where
  "resolve_all sys [] st = (None, st)"
| "resolve_all sys (file_path # rest) st =
     (case resolve_conflicts sys file_path (st\<lparr>world := os_elapse sys (world st)\<rparr>) of
        (Some e, st') \<Rightarrow> (Some e, st')
      | (None, st') \<Rightarrow> resolve_all sys rest st')"

subsection \<open>The Scanner\<close>

text \<open>
  The body of the inner loop for one \<open>file\<close> of a directory \<open>root\<close>, with the list
  \<open>conflict_files\<close> built so far. The statements under \<^verbatim>\<open>try\<close> may raise; the bare
  \<^verbatim>\<open>except: pass\<close> turns every exception into the unchanged list.
\<close>

definition try_read_marker :: "'w os \<Rightarrow> 'w \<Rightarrow> path \<Rightarrow> path list \<Rightarrow> exn + path list" where
  "try_read_marker sys w file_path conflict_files =
     (case read_text sys w file_path of
        Inl e \<Rightarrow> Inl e
      | Inr content \<Rightarrow>
          Inr (if contains content ''<<<<<<< HEAD''
               then conflict_files @ [file_path] else conflict_files))"

definition scan_file :: "'w os \<Rightarrow> 'w \<Rightarrow> path \<Rightarrow> string \<Rightarrow> path list \<Rightarrow> exn + path list" where
  "scan_file sys w root file conflict_files =
     (if endswith file [''.tsx'', ''.ts''] \<and>
         (contains root ''client'' \<or> contains root ''server'')
      then
        (let file_path = path_join root file in
         case try_read_marker sys w file_path conflict_files of
           Inl e \<Rightarrow> Inr conflict_files
         | Inr conflict_files' \<Rightarrow> Inr conflict_files')
      else Inr conflict_files)"

text \<open>\<^verbatim>\<open>for file in files\<close>: an exception that left the body would end the loop.\<close>

fun scan_files :: "'w os \<Rightarrow> 'w \<Rightarrow> path \<Rightarrow> string list \<Rightarrow> path list \<Rightarrow> exn + path list" where
  "scan_files sys w root [] conflict_files = Inr conflict_files"
| "scan_files sys w root (file # files) conflict_files =
     (case scan_file sys w root file conflict_files of
        Inl e \<Rightarrow> Inl e
      | Inr conflict_files' \<Rightarrow> scan_files sys w root files conflict_files')"

text \<open>\<^verbatim>\<open>for root, dirs, files in os.walk('.')\<close>.\<close>

fun scan_walk ::
  "'w os \<Rightarrow> 'w \<Rightarrow> (path \<times> string list \<times> string list) list \<Rightarrow> path list \<Rightarrow> exn + path list"
where
  "scan_walk sys w [] conflict_files = Inr conflict_files"
| "scan_walk sys w ((root, dirs, files) # entries) conflict_files =
     (case scan_files sys w root files conflict_files of
        Inl e \<Rightarrow> Inl e
      | Inr conflict_files' \<Rightarrow> scan_walk sys w entries conflict_files')"

definition find_conflict_files :: "'w os \<Rightarrow> 'w \<Rightarrow> exn + path list" where
  "find_conflict_files sys w = scan_walk sys w (os_walk sys w) []"

subsection \<open>The script\<close>

definition main :: "'w os \<Rightarrow> 'w \<Rightarrow> exn option \<times> 'w state" where
  "main sys w =
     (let st0 = \<lparr>world = w, stdout = []\<rparr> in
      case find_conflict_files sys w of
        Inl e \<Rightarrow> (Some e, st0)
      | Inr conflict_files \<Rightarrow>
          (let st1 = print (''Found '' @ str_nat (length conflict_files) @
                            '' files with conflicts'') st0 in
           case resolve_all sys conflict_files st1 of
             (Some e, st2) \<Rightarrow> (Some e, st2)
           | (None, st2) \<Rightarrow> (None, print ''All conflicts resolved!'' st2)))"

subsection \<open>Conflict blocks, as the specification words them\<close>

text \<open>
  \<^verbatim>\<open>s.find(sub)\<close>: the offset of the first occurrence of \<open>sub\<close> in \<open>s\<close>, if there is
  one.
\<close>

fun str_find :: "string \<Rightarrow> string \<Rightarrow> nat option" where
  "str_find [] sub = (if sub = [] then Some 0 else None)"
| "str_find (c # s) sub =
     (if prefix sub (c # s) then Some 0 else map_option Suc (str_find s sub))"

text \<open>
  A conflict block begins at the beginning of \<open>t\<close>: the start marker with the label
  \<^verbatim>\<open>HEAD\<close>, later a separator, later an end marker with the label
  \<^verbatim>\<open>jules-testing-merges\<close>.
\<close>

definition block_at :: "string \<Rightarrow> bool" where
  "block_at t \<longleftrightarrow>
     (\<exists>cur inc rest. t = start_marker @ cur @ separator @ inc @ end_marker @ rest)"

definition has_block :: "string \<Rightarrow> bool" where
  "has_block s \<longleftrightarrow> (\<exists>pre t. s = pre @ t \<and> block_at t)"

text \<open>
  The block with current side \<open>cur\<close> and incoming side \<open>inc\<close>. It is well formed when
  its separator is the first one after the start marker and its end marker is the
  first one after the separator.
\<close>

definition conflict_block :: "string \<Rightarrow> string \<Rightarrow> string" where
  "conflict_block cur inc = start_marker @ cur @ separator @ inc @ end_marker"

definition well_formed :: "string \<Rightarrow> string \<Rightarrow> bool" where
  "well_formed cur inc \<longleftrightarrow>
     str_find (cur @ separator) separator = Some (length cur) \<and>
     str_find (inc @ end_marker) end_marker = Some (length inc)"

text \<open>
  The contract of the Resolver's transformation: \<open>resolved s t\<close> when \<open>t\<close> is \<open>s\<close> with
  every conflict block, taken leftmost first and without overlap, replaced by its
  incoming span, and everything outside the blocks copied. A content without a
  block is copied whole. Otherwise the leftmost block is well formed and follows a
  piece \<open>pre\<close> in which no block begins; \<open>pre\<close> is copied, the block gives way
  to \<open>inc\<close>, and the same holds of the text after the block.
\<close>

inductive resolved :: "string \<Rightarrow> string \<Rightarrow> bool" where
  no_block: "\<not> has_block s \<Longrightarrow> resolved s s"
| block:
    "s = pre @ conflict_block cur inc @ rest \<Longrightarrow>
     (\<forall>k<length pre. \<not> block_at (drop k s)) \<Longrightarrow>
     well_formed cur inc \<Longrightarrow>
     resolved rest rest' \<Longrightarrow>
     resolved s (pre @ inc @ rest')"

text \<open>
  The file name's final extension: the text from its last dot on, empty when the
  name has no dot.
\<close>

definition final_extension :: "string \<Rightarrow> string" where
  "final_extension name =
     (if CHR ''.'' \<in> set name
      then CHR ''.'' # rev (takeWhile (\<lambda>c. c \<noteq> CHR ''.'') (rev name))
      else [])"

text \<open>
  The contract of the Scanner for a file \<open>file\<close> met in the directory \<open>root\<close>: a
  recognised extension, a directory path with one of the two substrings, a text that
  can be read and that contains the start marker.
\<close>

definition is_candidate :: "'w os \<Rightarrow> 'w \<Rightarrow> path \<Rightarrow> string \<Rightarrow> bool" where
  "is_candidate sys w root file \<longleftrightarrow>
     (final_extension file = ''.tsx'' \<or> final_extension file = ''.ts'') \<and>
     (contains root ''client'' \<or> contains root ''server'') \<and>
     (case read_text sys w (path_join root file) of
        Inl e \<Rightarrow> False
      | Inr content \<Rightarrow> contains content ''<<<<<<< HEAD'')"

definition candidates :: "'w os \<Rightarrow> 'w \<Rightarrow> path list" where
  "candidates sys w =
     concat (map (\<lambda>(root, dirs, files).
                    map (path_join root) (filter (is_candidate sys w root) files))
                 (os_walk sys w))"

subsection \<open>Where a match begins\<close>

text \<open>
  The pattern matches at offset \<open>k\<close> of a content when the anchored matcher succeeds
  on the text from \<open>k\<close> on; \<^verbatim>\<open>re.sub\<close> tries the offsets from left to right. The
  offset is at the beginning of a line when it is 0 or follows a newline.
\<close>

definition match_begins :: "string \<Rightarrow> nat \<Rightarrow> bool" where
  "match_begins content k \<longleftrightarrow>
     k \<le> length content \<and> re_match conflict_pattern (drop k content) \<noteq> None"

definition at_line_start :: "string \<Rightarrow> nat \<Rightarrow> bool" where
  "at_line_start content k \<longleftrightarrow>
     k = 0 \<or> (k \<le> length content \<and> content ! (k - 1) = CHR ''\<newline>'')"

subsection \<open>A small file system to run the script on\<close>

text \<open>
  Worlds are association lists from paths to texts. Reading a path without an entry
  raises \<^verbatim>\<open>FileNotFoundError\<close>. Writing stores the text. After the Scanner's
  pass another process removes \<^verbatim>\<open>./client/b.tsx\<close>. The walk lists
  \<^verbatim>\<open>./client/d.ts\<close>, which is gone when the Scanner opens it.
\<close>

definition demo_conflict :: string where
  "demo_conflict =
     ''<<<<<<< HEAD\<newline>A\<newline>=======\<newline>B\<newline>>>>>>>> jules-testing-merges\<newline>''"

definition demo_world :: "(path \<times> string) list" where
  "demo_world =
     [(''./client/a.ts'', demo_conflict),
      (''./client/b.tsx'', demo_conflict),
      (''./client/c.ts'', ''const c = 1\<newline>''),
      (''./client/e.md'', demo_conflict),
      (''./server/f.ts'', demo_conflict),
      (''./docs/g.ts'', demo_conflict)]"

definition demo_os :: "(path \<times> string) list os" where
  "demo_os =
     \<lparr>os_walk = (\<lambda>w.
        [(''.'', [''client'', ''server'', ''docs''], []),
         (''./client'', [], [''a.ts'', ''b.tsx'', ''c.ts'', ''d.ts'', ''e.md'']),
         (''./server'', [], [''f.ts'']),
         (''./docs'', [], [''g.ts''])]),
      read_text = (\<lambda>w p.
        case map_of w p of None \<Rightarrow> Inl FileNotFoundError | Some text \<Rightarrow> Inr text),
      write_text = (\<lambda>w p s.
        (None, map (\<lambda>(q, text). if q = p then (q, s) else (q, text)) w)),
      os_elapse = filter (\<lambda>(q, text). q \<noteq> ''./client/b.tsx'')\<rparr>"

section \<open>Properties of the matcher\<close>

lemma re_match_length:
  "re_match ps s = Some (g, r) \<Longrightarrow> length g + length r \<le> length s"
proof (induction ps s arbitrary: g r rule: re_match.induct)
  case (1 s)
  then show ?case by simp
next
  case (2 l ps s)
  from "2.prems" have p: "prefix l s" and m: "re_match ps (drop (length l) s) = Some (g, r)"
    by (simp_all split: if_splits)
  from "2.IH" [OF p m] show ?case by simp
next
  case (3 ps s)
  show ?case
  proof (cases "re_match ps s")
    case (Some a)
    with "3.prems" have "re_match ps s = Some (g, r)" by simp
    from "3.IH"(1) [OF this] show ?thesis .
  next
    case None
    show ?thesis
    proof (cases s)
      case Nil
      with None "3.prems" show ?thesis by simp
    next
      case (Cons c s')
      with None "3.prems" have "re_match (AnyLazy # ps) s' = Some (g, r)" by simp
      from "3.IH"(2) [OF None Cons this] Cons show ?thesis by simp
    qed
  qed
next
  case (4 ps s)
  show ?case
  proof (cases "re_match ps s")
    case (Some a)
    obtain g0 r0 where a: "a = (g0, r0)" by (cases a)
    with Some "4.prems" have gr: "g = []" "r = r0" by simp_all
    from "4.IH"(1) [of g0 r0] Some a gr show ?thesis by simp
  next
    case None
    show ?thesis
    proof (cases s)
      case Nil
      with None "4.prems" show ?thesis by simp
    next
      case (Cons c s')
      with None "4.prems" obtain g' where
        m: "re_match (GroupAnyLazy # ps) s' = Some (g', r)" and g: "g = c # g'"
        by (auto split: option.splits)
      from "4.IH"(2) [OF None Cons m] Cons g show ?thesis by simp
    qed
  qed
qed

lemma group_match_Nil:
  "re_match [GroupAnyLazy, Lit e] [] = (if e = [] then Some ([], []) else None)"
  by simp

lemma group_match_Cons:
  "re_match [GroupAnyLazy, Lit e] (c # s) =
     (if prefix e (c # s) then Some ([], drop (length e) (c # s))
      else (case re_match [GroupAnyLazy, Lit e] s of
              None \<Rightarrow> None
            | Some (g, r) \<Rightarrow> Some (c # g, r)))"
  by simp

lemma group_match_None:
  "re_match [GroupAnyLazy, Lit e] s = None \<longleftrightarrow> \<not> sublist e s"
proof (induction s)
  case Nil
  show ?case unfolding group_match_Nil by simp
next
  case (Cons c s)
  show ?case
  proof (cases "prefix e (c # s)")
    case True
    then have "sublist e (c # s)" by (simp add: sublist_Cons_right)
    with True show ?thesis unfolding group_match_Cons by simp
  next
    case False
    with Cons show ?thesis unfolding group_match_Cons
      by (cases "re_match [GroupAnyLazy, Lit e] s")
         (auto simp add: sublist_Cons_right simp del: re_match.simps)
  qed
qed

lemma group_match_Some:
  "re_match [GroupAnyLazy, Lit e] s = Some (g, r) \<longleftrightarrow>
     s = g @ e @ r \<and> (\<forall>k<length g. \<not> prefix e (drop k s))"
proof (induction s arbitrary: g)
  case Nil
  show ?case unfolding group_match_Nil by auto
next
  case (Cons c s)
  show ?case
  proof (cases "prefix e (c # s)")
    case True
    then obtain t where t: "c # s = e @ t" by (auto simp: prefix_def)
    have "(c # s = g @ e @ r \<and> (\<forall>k<length g. \<not> prefix e (drop k (c # s)))) \<longleftrightarrow> (g = [] \<and> r = t)"
    proof
      assume a: "c # s = g @ e @ r \<and> (\<forall>k<length g. \<not> prefix e (drop k (c # s)))"
      have "g = []"
      proof (rule ccontr)
        assume "g \<noteq> []"
        then have "0 < length g" by simp
        with a have "\<not> prefix e (drop 0 (c # s))" by blast
        with True show False by simp
      qed
      with a t show "g = [] \<and> r = t" by simp
    next
      assume "g = [] \<and> r = t"
      with t show "c # s = g @ e @ r \<and> (\<forall>k<length g. \<not> prefix e (drop k (c # s)))" by simp
    qed
    moreover from True t have "re_match [GroupAnyLazy, Lit e] (c # s) = Some ([], t)"
      unfolding group_match_Cons by simp
    ultimately show ?thesis by auto
  next
    case False
    have "(c # s = g @ e @ r \<and> (\<forall>k<length g. \<not> prefix e (drop k (c # s)))) \<longleftrightarrow>
          (\<exists>g'. g = c # g' \<and> s = g' @ e @ r \<and> (\<forall>k<length g'. \<not> prefix e (drop k s)))"
    proof
      assume a: "c # s = g @ e @ r \<and> (\<forall>k<length g. \<not> prefix e (drop k (c # s)))"
      from a False have "g \<noteq> []" by auto
      then obtain g' where g: "g = c # g'" using a by (cases g) auto
      with a have "s = g' @ e @ r" by simp
      moreover have "\<forall>k<length g'. \<not> prefix e (drop k s)"
      proof (intro allI impI)
        fix k assume "k < length g'"
        then have "Suc k < length g" using g by simp
        with a have "\<not> prefix e (drop (Suc k) (c # s))" by blast
        then show "\<not> prefix e (drop k s)" by simp
      qed
      ultimately show "\<exists>g'. g = c # g' \<and> s = g' @ e @ r \<and> (\<forall>k<length g'. \<not> prefix e (drop k s))"
        using g by blast
    next
      assume "\<exists>g'. g = c # g' \<and> s = g' @ e @ r \<and> (\<forall>k<length g'. \<not> prefix e (drop k s))"
      then obtain g' where g: "g = c # g'" and s: "s = g' @ e @ r"
        and n: "\<forall>k<length g'. \<not> prefix e (drop k s)" by blast
      have "\<forall>k<length g. \<not> prefix e (drop k (c # s))"
      proof (intro allI impI)
        fix k assume k: "k < length g"
        show "\<not> prefix e (drop k (c # s))"
        proof (cases k)
          case 0
          with False show ?thesis by simp
        next
          case (Suc j)
          with k g have "j < length g'" by simp
          with n Suc show ?thesis by simp
        qed
      qed
      with g s show "c # s = g @ e @ r \<and> (\<forall>k<length g. \<not> prefix e (drop k (c # s)))" by simp
    qed
    moreover from False have "re_match [GroupAnyLazy, Lit e] (c # s) = Some (g, r) \<longleftrightarrow>
        (\<exists>g'. g = c # g' \<and> re_match [GroupAnyLazy, Lit e] s = Some (g', r))"
      unfolding group_match_Cons by (auto simp del: re_match.simps split: option.splits)
    ultimately show ?thesis using Cons by (simp del: re_match.simps)
  qed
qed

lemma any_match_Nil: "re_match (AnyLazy # ps) [] = re_match ps []"
  by (simp split: option.splits)

lemma any_match_Cons:
  "re_match (AnyLazy # ps) (c # s) =
     (case re_match ps (c # s) of
        Some m \<Rightarrow> Some m
      | None \<Rightarrow> re_match (AnyLazy # ps) s)"
  by (simp split: option.splits)

lemma any_match_None:
  "re_match (AnyLazy # ps) s = None \<longleftrightarrow> (\<forall>k\<le>length s. re_match ps (drop k s) = None)"
proof (induction s)
  case Nil
  show ?case unfolding any_match_Nil by simp
next
  case (Cons c s)
  show ?case
  proof (cases "re_match ps (c # s)")
    case (Some m)
    then have "\<not> (\<forall>k\<le>length (c # s). re_match ps (drop k (c # s)) = None)"
      by (auto intro: exI [of _ 0])
    with Some show ?thesis unfolding any_match_Cons by simp
  next
    case None
    have "(\<forall>k\<le>length (c # s). re_match ps (drop k (c # s)) = None) \<longleftrightarrow>
          (\<forall>k\<le>length s. re_match ps (drop k s) = None)"
    proof
      assume a: "\<forall>k\<le>length (c # s). re_match ps (drop k (c # s)) = None"
      show "\<forall>k\<le>length s. re_match ps (drop k s) = None"
      proof (intro allI impI)
        fix k assume "k \<le> length s"
        then have "Suc k \<le> length (c # s)" by simp
        with a have "re_match ps (drop (Suc k) (c # s)) = None" by blast
        then show "re_match ps (drop k s) = None" by simp
      qed
    next
      assume a: "\<forall>k\<le>length s. re_match ps (drop k s) = None"
      show "\<forall>k\<le>length (c # s). re_match ps (drop k (c # s)) = None"
      proof (intro allI impI)
        fix k assume k: "k \<le> length (c # s)"
        show "re_match ps (drop k (c # s)) = None"
        proof (cases k)
          case 0
          with None show ?thesis by simp
        next
          case (Suc j)
          with k a show ?thesis by simp
        qed
      qed
    qed
    with None Cons show ?thesis unfolding any_match_Cons by (simp del: re_match.simps)
  qed
qed

lemma any_match_Some:
  "re_match (AnyLazy # ps) s = Some m \<longleftrightarrow>
     (\<exists>k\<le>length s. re_match ps (drop k s) = Some m \<and>
                     (\<forall>j<k. re_match ps (drop j s) = None))"
proof (induction s)
  case Nil
  show ?case unfolding any_match_Nil by simp
next
  case (Cons c s)
  let ?R = "\<lambda>t. \<exists>k\<le>length t. re_match ps (drop k t) = Some m \<and>
                     (\<forall>j<k. re_match ps (drop j t) = None)"
  show ?case
  proof (cases "re_match ps (c # s)")
    case (Some m')
    have "?R (c # s) \<longleftrightarrow> m' = m"
    proof
      assume "?R (c # s)"
      then obtain k where k: "re_match ps (drop k (c # s)) = Some m"
        and n: "\<forall>j<k. re_match ps (drop j (c # s)) = None" by blast
      have "k = 0"
      proof (rule ccontr)
        assume "k \<noteq> 0"
        then have "0 < k" by simp
        with n have "re_match ps (drop 0 (c # s)) = None" by blast
        with Some show False by simp
      qed
      with k Some show "m' = m" by simp
    next
      assume "m' = m"
      with Some have "re_match ps (drop 0 (c # s)) = Some m \<and>
                      (\<forall>j<0. re_match ps (drop j (c # s)) = None)" by simp
      then show "?R (c # s)" by blast
    qed
    with Some show ?thesis unfolding any_match_Cons by simp
  next
    case None
    have "?R (c # s) \<longleftrightarrow> ?R s"
    proof
      assume "?R (c # s)"
      then obtain k where kl: "k \<le> length (c # s)"
        and k: "re_match ps (drop k (c # s)) = Some m"
        and n: "\<forall>j<k. re_match ps (drop j (c # s)) = None" by blast
      from k None obtain i where i: "k = Suc i" by (cases k) auto
      have "\<forall>j<i. re_match ps (drop j s) = None"
      proof (intro allI impI)
        fix j assume "j < i"
        with i have "Suc j < k" by simp
        with n have "re_match ps (drop (Suc j) (c # s)) = None" by blast
        then show "re_match ps (drop j s) = None" by simp
      qed
      moreover from k i have "re_match ps (drop i s) = Some m" by simp
      moreover from kl i have "i \<le> length s" by simp
      ultimately show "?R s" by blast
    next
      assume "?R s"
      then obtain k where kl: "k \<le> length s"
        and k: "re_match ps (drop k s) = Some m"
        and n: "\<forall>j<k. re_match ps (drop j s) = None" by blast
      have "\<forall>j<Suc k. re_match ps (drop j (c # s)) = None"
      proof (intro allI impI)
        fix j assume j: "j < Suc k"
        show "re_match ps (drop j (c # s)) = None"
        proof (cases j)
          case 0
          with None show ?thesis by simp
        next
          case (Suc i)
          with j n show ?thesis by simp
        qed
      qed
      moreover from k have "re_match ps (drop (Suc k) (c # s)) = Some m" by simp
      moreover from kl have "Suc k \<le> length (c # s)" by simp
      ultimately show "?R (c # s)" by blast
    qed
    with None Cons show ?thesis unfolding any_match_Cons by (simp del: re_match.simps)
  qed
qed

lemma prefix_append_long:
  "length m \<le> length a \<Longrightarrow> prefix m (a @ b) \<longleftrightarrow> prefix m a"
  by (auto simp: prefix_append)

lemma str_find_None: "str_find s sub = None \<longleftrightarrow> \<not> sublist sub s"
proof (induction s)
  case Nil
  show ?case by simp
next
  case (Cons c s)
  then show ?case by (simp add: sublist_Cons_right)
qed

lemma str_find_Some:
  "str_find s sub = Some n \<longleftrightarrow>
     n \<le> length s \<and> prefix sub (drop n s) \<and> (\<forall>k<n. \<not> prefix sub (drop k s))"
proof (induction s arbitrary: n)
  case Nil
  show ?case by auto
next
  case (Cons c s)
  show ?case
  proof (cases "prefix sub (c # s)")
    case True
    have "(n \<le> length (c # s) \<and> prefix sub (drop n (c # s)) \<and>
           (\<forall>k<n. \<not> prefix sub (drop k (c # s)))) \<longleftrightarrow> n = 0"
    proof
      assume a: "n \<le> length (c # s) \<and> prefix sub (drop n (c # s)) \<and>
                 (\<forall>k<n. \<not> prefix sub (drop k (c # s)))"
      show "n = 0"
      proof (rule ccontr)
        assume "n \<noteq> 0"
        then have "0 < n" by simp
        with a have "\<not> prefix sub (drop 0 (c # s))" by blast
        with True show False by simp
      qed
    next
      assume "n = 0"
      with True show "n \<le> length (c # s) \<and> prefix sub (drop n (c # s)) \<and>
                      (\<forall>k<n. \<not> prefix sub (drop k (c # s)))" by simp
    qed
    with True show ?thesis by auto
  next
    case False
    have "(n \<le> length (c # s) \<and> prefix sub (drop n (c # s)) \<and>
           (\<forall>k<n. \<not> prefix sub (drop k (c # s)))) \<longleftrightarrow>
          (\<exists>i. n = Suc i \<and> i \<le> length s \<and> prefix sub (drop i s) \<and>
                (\<forall>k<i. \<not> prefix sub (drop k s)))"
    proof
      assume a: "n \<le> length (c # s) \<and> prefix sub (drop n (c # s)) \<and>
                 (\<forall>k<n. \<not> prefix sub (drop k (c # s)))"
      with False obtain i where i: "n = Suc i" by (cases n) auto
      have "\<forall>k<i. \<not> prefix sub (drop k s)"
      proof (intro allI impI)
        fix k assume "k < i"
        with i have "Suc k < n" by simp
        with a have "\<not> prefix sub (drop (Suc k) (c # s))" by blast
        then show "\<not> prefix sub (drop k s)" by simp
      qed
      with a i show "\<exists>i. n = Suc i \<and> i \<le> length s \<and> prefix sub (drop i s) \<and>
                (\<forall>k<i. \<not> prefix sub (drop k s))" by simp
    next
      assume "\<exists>i. n = Suc i \<and> i \<le> length s \<and> prefix sub (drop i s) \<and>
                (\<forall>k<i. \<not> prefix sub (drop k s))"
      then obtain i where i: "n = Suc i" "i \<le> length s" "prefix sub (drop i s)"
        and m: "\<forall>k<i. \<not> prefix sub (drop k s)" by blast
      have "\<forall>k<n. \<not> prefix sub (drop k (c # s))"
      proof (intro allI impI)
        fix k assume k: "k < n"
        show "\<not> prefix sub (drop k (c # s))"
        proof (cases k)
          case 0
          with False show ?thesis by simp
        next
          case (Suc j)
          with k i m show ?thesis by simp
        qed
      qed
      with i show "n \<le> length (c # s) \<and> prefix sub (drop n (c # s)) \<and>
                 (\<forall>k<n. \<not> prefix sub (drop k (c # s)))" by simp
    qed
    moreover from False have "str_find (c # s) sub = Some n \<longleftrightarrow>
        (\<exists>i. n = Suc i \<and> str_find s sub = Some i)" by auto
    ultimately show ?thesis using Cons by simp
  qed
qed

lemma str_find_last:
  "str_find (a @ m) m = Some (length a) \<longleftrightarrow> (\<forall>k<length a. \<not> prefix m (drop k (a @ m)))"
  by (simp add: str_find_Some)

text \<open>The first occurrence stays the first one when text follows.\<close>

lemma first_occurrence_append:
  assumes "k < length a"
  shows "prefix m (drop k (a @ m @ b)) \<longleftrightarrow> prefix m (drop k (a @ m))"
proof -
  from assms have d: "drop k (a @ m @ b) = drop k (a @ m) @ b" by simp
  from assms have "length m \<le> length (drop k (a @ m))" by simp
  with d show ?thesis by (simp only: prefix_append_long)
qed

lemma tail_match:
  "re_match [Lit sp, GroupAnyLazy, Lit e] u =
     (if prefix sp u then re_match [GroupAnyLazy, Lit e] (drop (length sp) u) else None)"
  by simp

lemma conflict_match_unfold:
  "re_match conflict_pattern t =
     (if prefix start_marker t
      then re_match [AnyLazy, Lit separator, GroupAnyLazy, Lit end_marker]
             (drop (length start_marker) t)
      else None)"
  by (simp add: conflict_pattern_def)

lemma conflict_match_block:
  assumes wf: "well_formed cur inc"
  shows "re_match conflict_pattern (conflict_block cur inc @ rest) = Some (inc, rest)"
proof -
  let ?T = "[Lit separator, GroupAnyLazy, Lit end_marker]"
  let ?G = "[GroupAnyLazy, Lit end_marker]"
  let ?u = "cur @ separator @ inc @ end_marker @ rest"
  from wf have s: "\<forall>k<length cur. \<not> prefix separator (drop k (cur @ separator))"
    and e: "\<forall>k<length inc. \<not> prefix end_marker (drop k (inc @ end_marker))"
    by (simp_all add: well_formed_def str_find_last)
  have "\<forall>k<length inc. \<not> prefix end_marker (drop k (inc @ end_marker @ rest))"
  proof (intro allI impI)
    fix k assume k: "k < length inc"
    with e have "\<not> prefix end_marker (drop k (inc @ end_marker))" by blast
    with first_occurrence_append [OF k, of end_marker rest]
    show "\<not> prefix end_marker (drop k (inc @ end_marker @ rest))" by blast
  qed
  then have g: "re_match ?G (inc @ end_marker @ rest) = Some (inc, rest)"
    by (simp add: group_match_Some del: re_match.simps)
  have at: "re_match ?T (drop (length cur) ?u) = Some (inc, rest)"
    using g by (simp add: tail_match del: re_match.simps)
  have before: "\<forall>j<length cur. re_match ?T (drop j ?u) = None"
  proof (intro allI impI)
    fix j assume j: "j < length cur"
    with s have "\<not> prefix separator (drop j (cur @ separator))" by blast
    with first_occurrence_append [OF j, of separator "inc @ end_marker @ rest"]
    have "\<not> prefix separator (drop j (cur @ separator @ (inc @ end_marker @ rest)))"
      by blast
    then show "re_match ?T (drop j ?u) = None"
      by (simp add: tail_match del: re_match.simps)
  qed
  have "re_match (AnyLazy # ?T) ?u = Some (inc, rest)"
    unfolding any_match_Some using at before
    by (intro exI [of _ "length cur"]) (simp del: re_match.simps)
  then show ?thesis
    by (simp add: conflict_match_unfold conflict_block_def del: re_match.simps)
qed

lemma conflict_match_SomeD:
  assumes m: "re_match conflict_pattern t = Some (g, r)"
  shows "\<exists>cur. t = conflict_block cur g @ r \<and> well_formed cur g"
proof -
  let ?T = "[Lit separator, GroupAnyLazy, Lit end_marker]"
  let ?G = "[GroupAnyLazy, Lit end_marker]"
  from m have p: "prefix start_marker t"
    by (simp add: conflict_match_unfold del: re_match.simps split: if_splits)
  then obtain u where t: "t = start_marker @ u" by (auto simp: prefix_def)
  from m p t have "re_match (AnyLazy # ?T) u = Some (g, r)"
    by (simp add: conflict_match_unfold del: re_match.simps)
  then obtain k where kl: "k \<le> length u"
    and at: "re_match ?T (drop k u) = Some (g, r)"
    and before: "\<forall>j<k. re_match ?T (drop j u) = None"
    unfolding any_match_Some by blast
  from at have sp: "prefix separator (drop k u)"
    and gm: "re_match ?G (drop (length separator) (drop k u)) = Some (g, r)"
    by (simp_all add: tail_match del: re_match.simps split: if_splits)
  from sp obtain v where v: "drop k u = separator @ v" by (auto simp: prefix_def)
  from gm v have "re_match ?G v = Some (g, r)" by (simp del: re_match.simps)
  then have veq: "v = g @ end_marker @ r"
    and e: "\<forall>i<length g. \<not> prefix end_marker (drop i v)"
    unfolding group_match_Some by blast+
  define cur where "cur = take k u"
  from kl have lc: "length cur = k" by (simp add: cur_def)
  have "u = take k u @ drop k u" by simp
  with v veq have u: "u = cur @ separator @ g @ end_marker @ r" by (simp add: cur_def)
  have e': "\<forall>i<length g. \<not> prefix end_marker (drop i (g @ end_marker))"
  proof (intro allI impI)
    fix i assume i: "i < length g"
    with e veq have "\<not> prefix end_marker (drop i (g @ end_marker @ r))" by blast
    with first_occurrence_append [OF i, of end_marker r]
    show "\<not> prefix end_marker (drop i (g @ end_marker))" by blast
  qed
  have s': "\<forall>j<length cur. \<not> prefix separator (drop j (cur @ separator))"
  proof (intro allI impI)
    fix j assume j: "j < length cur"
    with lc before have n: "re_match ?T (drop j u) = None" by simp
    from j have "drop (length separator) (drop j u) =
        drop (j + length separator) (cur @ separator) @ g @ end_marker @ r"
      by (simp add: u add.commute)
    then have "sublist end_marker (drop (length separator) (drop j u))"
      by (simp add: sublist_append)
    then have "re_match ?G (drop (length separator) (drop j u)) \<noteq> None"
      by (simp add: group_match_None del: re_match.simps)
    with n have "\<not> prefix separator (drop j u)"
      by (simp add: tail_match del: re_match.simps split: if_splits)
    with first_occurrence_append [OF j, of separator "g @ end_marker @ r"] u
    show "\<not> prefix separator (drop j (cur @ separator))" by simp
  qed
  from e' s' have "well_formed cur g"
    by (simp add: well_formed_def str_find_last)
  moreover from t u have "t = conflict_block cur g @ r"
    by (simp add: conflict_block_def)
  ultimately show ?thesis by blast
qed

lemma conflict_match_Some:
  "re_match conflict_pattern t = Some (g, r) \<longleftrightarrow>
     (\<exists>cur. t = conflict_block cur g @ r \<and> well_formed cur g)"
  using conflict_match_SomeD conflict_match_block by blast

lemma conflict_match_None: "re_match conflict_pattern t = None \<longleftrightarrow> \<not> block_at t"
proof
  assume n: "re_match conflict_pattern t = None"
  show "\<not> block_at t"
  proof
    assume "block_at t"
    then obtain cur inc rest where
      t: "t = start_marker @ cur @ separator @ inc @ end_marker @ rest"
      unfolding block_at_def by blast
    from n t have "re_match [AnyLazy, Lit separator, GroupAnyLazy, Lit end_marker]
        (cur @ separator @ inc @ end_marker @ rest) = None"
      by (simp add: conflict_match_unfold del: re_match.simps)
    then have a: "\<forall>k\<le>length (cur @ separator @ inc @ end_marker @ rest).
        re_match [Lit separator, GroupAnyLazy, Lit end_marker]
          (drop k (cur @ separator @ inc @ end_marker @ rest)) = None"
      unfolding any_match_None .
    have "length cur \<le> length (cur @ separator @ inc @ end_marker @ rest)" by simp
    with a have "re_match [Lit separator, GroupAnyLazy, Lit end_marker]
        (drop (length cur) (cur @ separator @ inc @ end_marker @ rest)) = None"
      by blast
    then have "re_match [GroupAnyLazy, Lit end_marker] (inc @ end_marker @ rest) = None"
      by (simp add: tail_match del: re_match.simps)
    then show False
      by (simp add: group_match_None del: re_match.simps)
  qed
next
  assume nb: "\<not> block_at t"
  show "re_match conflict_pattern t = None"
  proof (cases "re_match conflict_pattern t")
    case None
    then show ?thesis .
  next
    case (Some a)
    obtain g r where "a = (g, r)" by (cases a)
    with Some conflict_match_SomeD obtain cur where "t = conflict_block cur g @ r"
      by blast
    then have "block_at t" unfolding block_at_def conflict_block_def by auto
    with nb show ?thesis by simp
  qed
qed

lemma conflict_match_shorter:
  "re_match conflict_pattern s = Some (g, r) \<Longrightarrow> length r < length s"
  by (auto dest!: conflict_match_SomeD simp: conflict_block_def start_marker_def)

section \<open>Properties of the substitution\<close>

lemma resolve_content_match:
  assumes "re_match conflict_pattern s = Some (g, r)"
  shows "resolve_content s = g @ resolve_content r"
proof -
  from assms have "length r < length s" by (rule conflict_match_shorter)
  with assms show ?thesis
    unfolding resolve_content_def by (subst re_sub.simps) simp
qed

lemma resolve_content_Nil: "resolve_content [] = []"
proof -
  have "re_match conflict_pattern [] = None"
    by (simp add: conflict_match_unfold start_marker_def del: re_match.simps)
  then show ?thesis
    unfolding resolve_content_def by (subst re_sub.simps) simp
qed

lemma resolve_content_no_match:
  assumes "re_match conflict_pattern (c # s) = None"
  shows "resolve_content (c # s) = c # resolve_content s"
  using assms unfolding resolve_content_def by (subst re_sub.simps) simp

lemma resolve_content_skip:
  "(\<forall>k<length pre. \<not> block_at (drop k (pre @ t))) \<Longrightarrow>
   resolve_content (pre @ t) = pre @ resolve_content t"
proof (induction pre)
  case Nil
  show ?case by simp
next
  case (Cons c pre)
  have "\<forall>k<length pre. \<not> block_at (drop k (pre @ t))"
  proof (intro allI impI)
    fix k assume "k < length pre"
    then have "Suc k < length (c # pre)" by simp
    with Cons.prems have "\<not> block_at (drop (Suc k) ((c # pre) @ t))" by blast
    then show "\<not> block_at (drop k (pre @ t))" by simp
  qed
  then have ih: "resolve_content (pre @ t) = pre @ resolve_content t" by (rule Cons.IH)
  have "0 < length (c # pre)" by simp
  with Cons.prems have "\<not> block_at (drop 0 ((c # pre) @ t))" by blast
  then have "re_match conflict_pattern (c # pre @ t) = None"
    by (simp add: conflict_match_None)
  then have "resolve_content (c # pre @ t) = c # resolve_content (pre @ t)"
    by (rule resolve_content_no_match)
  with ih show ?case by simp
qed

lemma has_block_drop: "has_block s \<longleftrightarrow> (\<exists>k\<le>length s. block_at (drop k s))"
proof
  assume "has_block s"
  then obtain pre t where s: "s = pre @ t" and b: "block_at t"
    unfolding has_block_def by blast
  from s b have "length pre \<le> length s \<and> block_at (drop (length pre) s)" by simp
  then show "\<exists>k\<le>length s. block_at (drop k s)" by blast
next
  assume "\<exists>k\<le>length s. block_at (drop k s)"
  then obtain k where "block_at (drop k s)" by blast
  moreover have "s = take k s @ drop k s" by simp
  ultimately show "has_block s" unfolding has_block_def by blast
qed

lemma resolve_content_no_block:
  assumes "\<not> has_block s"
  shows "resolve_content s = s"
proof -
  from assms have "\<forall>k<length s. \<not> block_at (drop k (s @ []))"
    by (auto simp: has_block_drop)
  then have "resolve_content (s @ []) = s @ resolve_content []"
    by (rule resolve_content_skip)
  then show ?thesis by (simp add: resolve_content_Nil)
qed

lemma resolve_content_block:
  assumes "well_formed cur inc"
  shows "resolve_content (conflict_block cur inc @ rest) = inc @ resolve_content rest"
  using conflict_match_block [OF assms] by (rule resolve_content_match)

lemma resolved_imp_resolve_content: "resolved s t \<Longrightarrow> t = resolve_content s"
proof (induction rule: resolved.induct)
  case (no_block s)
  then show ?case by (simp add: resolve_content_no_block)
next
  case (block s pre cur inc rest rest')
  from block.hyps(1,2)
  have "resolve_content (pre @ conflict_block cur inc @ rest) =
        pre @ resolve_content (conflict_block cur inc @ rest)"
    by (intro resolve_content_skip) simp
  with block.hyps(1,3) block.IH show ?case
    by (simp add: resolve_content_block)
qed

lemma resolve_content_resolved: "resolved s (resolve_content s)"
proof (induction "length s" arbitrary: s rule: less_induct)
  case less
  show ?case
  proof (cases "has_block s")
    case False
    then have "resolved s s" by (rule resolved.no_block)
    with False show ?thesis by (simp add: resolve_content_no_block)
  next
    case True
    define k where "k = (LEAST k. k \<le> length s \<and> block_at (drop k s))"
    from True have ex: "\<exists>k. k \<le> length s \<and> block_at (drop k s)"
      by (auto simp: has_block_drop)
    then have kk: "k \<le> length s \<and> block_at (drop k s)"
      unfolding k_def by (rule LeastI_ex)
    have least: "\<forall>j<k. \<not> block_at (drop j s)"
    proof (intro allI impI)
      fix j assume j: "j < k"
      show "\<not> block_at (drop j s)"
      proof
        assume "block_at (drop j s)"
        with j kk have "j \<le> length s \<and> block_at (drop j s)" by simp
        then have "k \<le> j" unfolding k_def by (rule Least_le)
        with j show False by simp
      qed
    qed
    define pre where "pre = take k s"
    from kk have lp: "length pre = k" by (simp add: pre_def)
    have s: "s = pre @ drop k s" by (simp add: pre_def)
    from kk have "re_match conflict_pattern (drop k s) \<noteq> None"
      by (simp add: conflict_match_None)
    then obtain g r where m: "re_match conflict_pattern (drop k s) = Some (g, r)"
      by (cases "re_match conflict_pattern (drop k s)") auto
    then obtain cur where d: "drop k s = conflict_block cur g @ r"
      and wf: "well_formed cur g"
      using conflict_match_SomeD by blast
    from s d have s': "s = pre @ conflict_block cur g @ r" by simp
    then have "length r < length s" by (simp add: conflict_block_def start_marker_def)
    then have ih: "resolved r (resolve_content r)" by (rule less.hyps)
    from least lp have lm: "\<forall>j<length pre. \<not> block_at (drop j s)" by simp
    have "resolved s (pre @ g @ resolve_content r)"
      by (rule resolved.block [OF s' lm wf ih])
    moreover from this have "pre @ g @ resolve_content r = resolve_content s"
      by (rule resolved_imp_resolve_content)
    ultimately show ?thesis by simp
  qed
qed

section \<open>Markers that cannot overlap themselves\<close>

lemma start_marker_unbordered:
  assumes "0 < d" and "d < length start_marker"
  shows "\<not> prefix (drop d start_marker) start_marker"
proof -
  have "list_all (\<lambda>d. \<not> prefix (drop d start_marker) start_marker)
          [1..<length start_marker]"
    by code_simp
  moreover from assms have "d \<in> set [1..<length start_marker]" by simp
  ultimately show ?thesis unfolding list_all_iff by blast
qed

lemma no_straddle:
  assumes np: "\<not> sublist m p"
    and unb: "\<And>d. 0 < d \<Longrightarrow> d < length m \<Longrightarrow> \<not> prefix (drop d m) m"
    and k: "k < length p"
  shows "\<not> prefix m (drop k (p @ m @ x))"
proof
  assume pm: "prefix m (drop k (p @ m @ x))"
  define a where "a = drop k p"
  from k have a0: "0 < length a" by (simp add: a_def)
  from k pm have pa: "prefix m (a @ m @ x)" by (simp add: a_def)
  show False
  proof (cases "length m \<le> length a")
    case True
    with pa have "prefix m a" by (simp only: prefix_append_long)
    then obtain z where "a = m @ z" by (auto simp: prefix_def)
    then have "take k p @ m @ z = take k p @ drop k p" by (simp add: a_def)
    then have "p = take k p @ m @ z" by simp
    then have "sublist m p" unfolding sublist_def by blast
    with np show False by simp
  next
    case False
    then have lt: "length a < length m" by simp
    from pa have "prefix m a \<or> (\<exists>us. m = a @ us \<and> prefix us (m @ x))"
      by (simp only: prefix_append)
    moreover from lt have "\<not> prefix m a" by (auto dest: prefix_length_le)
    ultimately obtain us where m: "m = a @ us" and pu: "prefix us (m @ x)" by blast
    from m have "length us \<le> length m" by (metis length_append le_add2)
    with pu have "prefix us m" by (simp only: prefix_append_long)
    moreover from m have "us = drop (length a) m" by (metis append_eq_conv_conj)
    ultimately have "prefix (drop (length a) m) m" by simp
    with unb [OF a0 lt] show False by simp
  qed
qed

lemma block_at_prefix: "block_at t \<Longrightarrow> prefix start_marker t"
  by (auto simp: block_at_def)

lemma has_block_contains:
  assumes "has_block s"
  shows "contains s start_marker \<and> contains s separator \<and> contains s end_marker"
proof -
  from assms obtain pre cur inc rest where
    s: "s = pre @ start_marker @ cur @ separator @ inc @ end_marker @ rest"
    unfolding has_block_def block_at_def by blast
  have "sublist start_marker (pre @ start_marker @ (cur @ separator @ inc @ end_marker @ rest))"
    by (rule sublist_appendI)
  moreover have "sublist separator ((pre @ start_marker @ cur) @ separator @ (inc @ end_marker @ rest))"
    by (rule sublist_appendI)
  moreover have "sublist end_marker ((pre @ start_marker @ cur @ separator @ inc) @ end_marker @ rest)"
    by (rule sublist_appendI)
  ultimately show ?thesis using s by (simp add: contains_def)
qed

lemma gap_no_block:
  assumes "\<not> contains p start_marker"
  shows "\<forall>k<length p. \<not> block_at (drop k (p @ conflict_block cur inc @ rest))"
proof (intro allI impI)
  fix k assume k: "k < length p"
  from assms have np: "\<not> sublist start_marker p" by (simp add: contains_def)
  have "\<not> prefix start_marker
          (drop k (p @ start_marker @ (cur @ separator @ inc @ end_marker @ rest)))"
    using np start_marker_unbordered k by (rule no_straddle)
  then show "\<not> block_at (drop k (p @ conflict_block cur inc @ rest))"
    using block_at_prefix by (auto simp: conflict_block_def)
qed

lemma resolve_content_gap_block:
  assumes "\<not> contains p start_marker" and "well_formed cur inc"
  shows "resolve_content (p @ conflict_block cur inc @ rest) = p @ inc @ resolve_content rest"
proof -
  from gap_no_block [OF assms(1)]
  have "resolve_content (p @ conflict_block cur inc @ rest) =
        p @ resolve_content (conflict_block cur inc @ rest)"
    by (rule resolve_content_skip)
  with assms(2) show ?thesis by (simp add: resolve_content_block)
qed

lemma resolve_content_two_blocks:
  assumes "\<not> contains p0 start_marker" and "\<not> contains p1 start_marker"
    and "\<not> contains p2 start_marker"
    and "well_formed cur1 inc1" and "well_formed cur2 inc2"
  shows "resolve_content (p0 @ conflict_block cur1 inc1 @ p1 @ conflict_block cur2 inc2 @ p2) =
         p0 @ inc1 @ p1 @ inc2 @ p2"
proof -
  from assms(3) have "\<not> has_block p2" using has_block_contains by blast
  then have "resolve_content p2 = p2" by (rule resolve_content_no_block)
  with resolve_content_gap_block [OF assms(2,5), of p2]
  have "resolve_content (p1 @ conflict_block cur2 inc2 @ p2) = p1 @ inc2 @ p2" by simp
  with resolve_content_gap_block [OF assms(1,4), of "p1 @ conflict_block cur2 inc2 @ p2"]
  show ?thesis by simp
qed

lemma re_sub_length: "length (re_sub ps s) \<le> length s"
proof (induction ps s rule: re_sub.induct)
  case (1 ps s)
  show ?case
  proof (cases "re_match ps s")
    case None
    show ?thesis
    proof (cases s)
      case Nil
      with None show ?thesis by (subst re_sub.simps) simp
    next
      case (Cons c s')
      with None "1.IH"(1) [OF None Cons] show ?thesis by (subst re_sub.simps) simp
    qed
  next
    case (Some a)
    obtain g r where a: "a = (g, r)" by (cases a)
    from Some a have m: "re_match ps s = Some (g, r)" by simp
    then have le: "length g + length r \<le> length s" by (rule re_match_length)
    show ?thesis
    proof (cases "length r < length s")
      case True
      from "1.IH"(2) [OF m refl True] have "length (re_sub ps r) \<le> length r" .
      with m True le show ?thesis by (subst re_sub.simps) simp
    next
      case False
      with le have "length g = 0" by arith
      then have g: "g = []" by simp
      show ?thesis
      proof (cases s)
        case Nil
        with m g False show ?thesis by (subst re_sub.simps) simp
      next
        case (Cons c s')
        from "1.IH"(3) [OF m refl False Cons] have "length (re_sub ps s') \<le> length s'" .
        with m g False Cons show ?thesis by (subst re_sub.simps) simp
      qed
    qed
  qed
qed

section \<open>Properties of the Scanner and of the Resolver's loop\<close>

lemma suffix_final_extension:
  assumes "CHR ''.'' \<notin> set ext"
  shows "suffix (CHR ''.'' # ext) name \<longleftrightarrow> final_extension name = CHR ''.'' # ext"
proof
  assume "suffix (CHR ''.'' # ext) name"
  then obtain p where n: "name = p @ CHR ''.'' # ext" by (auto simp: suffix_def)
  then have r: "rev name = rev ext @ CHR ''.'' # rev p" by simp
  from assms have "\<And>x. x \<in> set (rev ext) \<Longrightarrow> x \<noteq> CHR ''.''" by auto
  then have "takeWhile (\<lambda>c. c \<noteq> CHR ''.'') (rev ext @ CHR ''.'' # rev p) = rev ext"
    by (subst takeWhile_append2) simp_all
  with r n show "final_extension name = CHR ''.'' # ext"
    by (simp add: final_extension_def)
next
  assume f: "final_extension name = CHR ''.'' # ext"
  let ?P = "\<lambda>c. c \<noteq> CHR ''.''"
  from f have d: "CHR ''.'' \<in> set name"
    by (simp add: final_extension_def split: if_splits)
  with f have e: "ext = rev (takeWhile ?P (rev name))"
    by (simp add: final_extension_def)
  from d have "dropWhile ?P (rev name) \<noteq> []" by (simp add: dropWhile_eq_Nil_conv)
  then obtain c t where dw: "dropWhile ?P (rev name) = c # t"
    by (cases "dropWhile ?P (rev name)") auto
  then have "\<not> ?P c" using hd_dropWhile [of ?P "rev name"] by simp
  then have c: "c = CHR ''.''" by simp
  have "rev name = takeWhile ?P (rev name) @ dropWhile ?P (rev name)" by simp
  with dw c e have "rev name = rev ext @ CHR ''.'' # t" by simp
  then have "rev (rev name) = rev (rev ext @ CHR ''.'' # t)" by (rule arg_cong)
  then have "name = rev t @ CHR ''.'' # ext" by simp
  then show "suffix (CHR ''.'' # ext) name" by (auto simp: suffix_def)
qed

lemma endswith_final_extension:
  "endswith file [''.tsx'', ''.ts''] \<longleftrightarrow>
     final_extension file = ''.tsx'' \<or> final_extension file = ''.ts''"
proof -
  have "suffix ''.tsx'' file \<longleftrightarrow> final_extension file = ''.tsx''"
    by (rule suffix_final_extension) simp
  moreover have "suffix ''.ts'' file \<longleftrightarrow> final_extension file = ''.ts''"
    by (rule suffix_final_extension) simp
  ultimately show ?thesis by (simp add: endswith_def)
qed

lemma scan_file_spec:
  "scan_file sys w root file acc =
     Inr (if is_candidate sys w root file then acc @ [path_join root file] else acc)"
proof (cases "read_text sys w (path_join root file)")
  case (Inl e)
  then show ?thesis
    by (simp add: scan_file_def try_read_marker_def is_candidate_def)
next
  case (Inr content)
  then show ?thesis
    by (simp add: scan_file_def try_read_marker_def is_candidate_def
          endswith_final_extension)
qed

lemma scan_files_spec:
  "scan_files sys w root files acc =
     Inr (acc @ map (path_join root) (filter (is_candidate sys w root) files))"
  by (induction files arbitrary: acc) (simp_all add: scan_file_spec)

lemma scan_walk_spec:
  "scan_walk sys w entries acc =
     Inr (acc @ concat (map (\<lambda>(root, dirs, files).
                           map (path_join root) (filter (is_candidate sys w root) files))
                        entries))"
proof (induction entries arbitrary: acc)
  case Nil
  show ?case by simp
next
  case (Cons entry entries)
  obtain root dirs files where "entry = (root, dirs, files)" by (cases entry)
  with Cons show ?case by (simp add: scan_files_spec)
qed

lemma find_conflict_files_spec: "find_conflict_files sys w = Inr (candidates sys w)"
  by (simp add: find_conflict_files_def candidates_def scan_walk_spec)

lemma unreadable_not_candidate:
  "read_text sys w (path_join root file) = Inl e \<Longrightarrow> \<not> is_candidate sys w root file"
  by (simp add: is_candidate_def)

lemma candidates_readable:
  assumes "p \<in> set (candidates sys w)"
  shows "\<exists>content. read_text sys w p = Inr content"
proof -
  from assms obtain root name where "p = path_join root name"
    and "is_candidate sys w root name"
    by (auto simp: candidates_def)
  then show ?thesis
    by (cases "read_text sys w p") (simp_all add: is_candidate_def)
qed

lemma resolve_all_append:
  "resolve_all sys (xs @ ys) st =
     (case resolve_all sys xs st of
        (Some e, st') \<Rightarrow> (Some e, st')
      | (None, st') \<Rightarrow> resolve_all sys ys st')"
proof (induction xs arbitrary: st)
  case Nil
  show ?case by simp
next
  case (Cons x xs)
  show ?case
  proof (cases "resolve_conflicts sys x (st\<lparr>world := os_elapse sys (world st)\<rparr>)")
    case (Pair r st')
    with Cons show ?thesis by (cases r) simp_all
  qed
qed

lemma resolve_conflicts_read_error:
  assumes "read_text sys (world st) p = Inl e"
  shows "resolve_conflicts sys p st =
           (Some e, \<lparr>world = world st, stdout = stdout st @ [''Resolving conflicts in '' @ p]\<rparr>)"
  using assms by (simp add: resolve_conflicts_def print_def Let_def)

lemma resolve_conflicts_write_error:
  assumes "read_text sys (world st) p = Inr content"
    and "write_text sys (world st) p (resolve_content content) = (Some e, w')"
  shows "resolve_conflicts sys p st =
           (Some e, \<lparr>world = w', stdout = stdout st @ [''Resolving conflicts in '' @ p]\<rparr>)"
  using assms by (simp add: resolve_conflicts_def print_def Let_def)

lemma resolve_all_abort:
  assumes "resolve_all sys before st = (None, st1)"
    and "resolve_conflicts sys p (st1\<lparr>world := os_elapse sys (world st1)\<rparr>) = (Some e, st2)"
  shows "resolve_all sys (before @ p # later) st = (Some e, st2)"
  using assms by (simp add: resolve_all_append)

text \<open>
  A run of the script on the small file system when it is the first candidate that
  another process removes after the Scanner's pass: the Resolver's first read
  raises, and the two other candidates keep their conflict blocks.
\<close>

lemma first_candidate_removed_after_discovery:
  "main (demo_os\<lparr>os_elapse := filter (\<lambda>(q, text). q \<noteq> ''./client/a.ts'')\<rparr>) demo_world =
     (Some FileNotFoundError,
      \<lparr>world =
         [(''./client/b.tsx'', demo_conflict),
          (''./client/c.ts'', ''const c = 1\<newline>''),
          (''./client/e.md'', demo_conflict),
          (''./server/f.ts'', demo_conflict),
          (''./docs/g.ts'', demo_conflict)],
       stdout =
         [''Found 3 files with conflicts'',
          ''Resolving conflicts in ./client/a.ts'']\<rparr>)"
  by code_simp

section \<open>The claims\<close>

subsection \<open>The Resolver's transformation of a content\<close>

text \<open>
  Claim C1, as amended. For the content that is the single conflict block
  \<^verbatim>\<open><<<<<<< HEAD\nA\n=======\nB\n>>>>>>> jules-testing-merges\n\<close>, the transformation
  yields \<^verbatim>\<open>\nB\n\n\<close>: the captured span runs from just after the separator to just
  before the end marker, so it keeps the newline that ends the separator line, and
  the newline after the end marker is outside the match and is copied.
\<close>

theorem single_block_resolves_to_captured_span:
  "resolve_content
     ''<<<<<<< HEAD\<newline>A\<newline>=======\<newline>B\<newline>>>>>>>> jules-testing-merges\<newline>'' =
   ''\<newline>B\<newline>\<newline>''"
  by code_simp

text \<open>
  Claim C1, as stated, fails: the result for that content is not \<^verbatim>\<open>B\n\<close>.
\<close>

theorem single_block_result_is_not_incoming_line:
  "resolve_content
     ''<<<<<<< HEAD\<newline>A\<newline>=======\<newline>B\<newline>>>>>>>> jules-testing-merges\<newline>'' \<noteq>
   ''B\<newline>''"
  by code_simp

text \<open>
  Claim C3. For every content, the transformation is the one the contract
  \<open>resolved\<close> describes: every conflict block, leftmost first and without overlap, is
  replaced by its captured incoming span in one pass, and the text outside the
  blocks is copied unchanged. In particular, when two well-formed blocks stand
  between pieces of text without a start marker, each block is replaced by its own
  incoming span and the three pieces stay as they are.
\<close>

theorem resolve_content_meets_contract:
  "(resolved content t \<longleftrightarrow> t = resolve_content content) \<and>
   (\<not> contains p0 start_marker \<and> \<not> contains p1 start_marker \<and>
    \<not> contains p2 start_marker \<and> well_formed cur1 inc1 \<and> well_formed cur2 inc2 \<longrightarrow>
    resolve_content
      (p0 @ conflict_block cur1 inc1 @ p1 @ conflict_block cur2 inc2 @ p2) =
    p0 @ inc1 @ p1 @ inc2 @ p2)"
  using resolved_imp_resolve_content resolve_content_resolved resolve_content_two_blocks
  by blast

theorem resolve_content_meets_contract_witness:
  "\<not> contains ''a\<newline>'' start_marker \<and> \<not> contains ''b\<newline>'' start_marker \<and>
   \<not> contains ''c\<newline>'' start_marker \<and>
   well_formed ''\<newline>A\<newline>'' ''\<newline>B\<newline>'' \<and> well_formed ''\<newline>C\<newline>'' ''\<newline>D\<newline>'' \<and>
   resolve_content
     (''a\<newline>'' @ conflict_block ''\<newline>A\<newline>'' ''\<newline>B\<newline>'' @ ''b\<newline>'' @
      conflict_block ''\<newline>C\<newline>'' ''\<newline>D\<newline>'' @ ''c\<newline>'') =
   ''a\<newline>'' @ ''\<newline>B\<newline>'' @ ''b\<newline>'' @ ''\<newline>D\<newline>'' @ ''c\<newline>'' \<and>
   resolved
     (''a\<newline>'' @ conflict_block ''\<newline>A\<newline>'' ''\<newline>B\<newline>'' @ ''b\<newline>'' @
      conflict_block ''\<newline>C\<newline>'' ''\<newline>D\<newline>'' @ ''c\<newline>'')
     (''a\<newline>'' @ ''\<newline>B\<newline>'' @ ''b\<newline>'' @ ''\<newline>D\<newline>'' @ ''c\<newline>'')"
proof -
  let ?s = "''a\<newline>'' @ conflict_block ''\<newline>A\<newline>'' ''\<newline>B\<newline>'' @ ''b\<newline>'' @
      conflict_block ''\<newline>C\<newline>'' ''\<newline>D\<newline>'' @ ''c\<newline>''"
  let ?t = "''a\<newline>'' @ ''\<newline>B\<newline>'' @ ''b\<newline>'' @ ''\<newline>D\<newline>'' @ ''c\<newline>''"
  have h0: "\<not> contains ''a\<newline>'' start_marker" by code_simp
  have h1: "\<not> contains ''b\<newline>'' start_marker" by code_simp
  have h2: "\<not> contains ''c\<newline>'' start_marker" by code_simp
  have w1: "well_formed ''\<newline>A\<newline>'' ''\<newline>B\<newline>''" by code_simp
  have w2: "well_formed ''\<newline>C\<newline>'' ''\<newline>D\<newline>''" by code_simp
  note c = resolve_content_meets_contract
    [of ?s ?t "''a\<newline>''" "''b\<newline>''" "''c\<newline>''" "''\<newline>A\<newline>''" "''\<newline>B\<newline>''" "''\<newline>C\<newline>''" "''\<newline>D\<newline>''"]
  have h: "\<not> contains ''a\<newline>'' start_marker \<and> \<not> contains ''b\<newline>'' start_marker \<and>
      \<not> contains ''c\<newline>'' start_marker \<and>
      well_formed ''\<newline>A\<newline>'' ''\<newline>B\<newline>'' \<and> well_formed ''\<newline>C\<newline>'' ''\<newline>D\<newline>''"
    by (intro conjI h0 h1 h2 w1 w2)
  from c [THEN conjunct2] h have r: "resolve_content ?s = ?t" by (rule mp)
  then have "?t = resolve_content ?s" by (rule sym)
  with c [THEN conjunct1] have res: "resolved ?s ?t" by (rule iffD2)
  show ?thesis by (intro conjI h0 h1 h2 w1 w2 r res)
qed

text \<open>
  Claim C4, as stated, fails. In the content
  \<^verbatim>\<open>x <<<<<<< HEAD\nA\n=======\nB\n>>>>>>> jules-testing-merges\n\<close>
  the start marker stands at offset 2, in the middle of the first line, and a match
  begins there: the block is replaced.
\<close>

theorem match_begins_in_the_middle_of_a_line:
  "match_begins
     ''x <<<<<<< HEAD\<newline>A\<newline>=======\<newline>B\<newline>>>>>>>> jules-testing-merges\<newline>'' 2 \<and>
   \<not> at_line_start
     ''x <<<<<<< HEAD\<newline>A\<newline>=======\<newline>B\<newline>>>>>>>> jules-testing-merges\<newline>'' 2 \<and>
   resolve_content
     ''x <<<<<<< HEAD\<newline>A\<newline>=======\<newline>B\<newline>>>>>>>> jules-testing-merges\<newline>'' =
   ''x \<newline>B\<newline>\<newline>''"
  by code_simp

text \<open>
  Claim C4, as amended. The pattern matches a conflict block only where the
  7-character start marker followed by the label \<^verbatim>\<open>HEAD\<close> occurs, and whether a match
  begins at an offset depends on the text from that offset on alone: a match begins
  after any text \<open>pre\<close>, at the beginning of a line or in the middle of one, exactly
  when a start marker, later a separator and later an end marker follow.
\<close>

theorem match_begins_wherever_a_block_begins:
  "(match_begins (pre @ t) (length pre) \<longleftrightarrow> block_at t) \<and>
   (match_begins (pre @ t) (length pre) \<longrightarrow> prefix start_marker t)"
  using block_at_prefix by (auto simp: match_begins_def conflict_match_None)

theorem match_begins_wherever_a_block_begins_witness:
  "match_begins (''x '' @ demo_conflict) (length ''x '') \<and>
   block_at demo_conflict \<and> prefix start_marker demo_conflict"
proof -
  have "match_begins (''x '' @ demo_conflict) (length ''x '')" by code_simp
  with match_begins_wherever_a_block_begins [of "''x ''" demo_conflict]
  show ?thesis by blast
qed

text \<open>
  Claim C7. A content that contains the start marker \<^verbatim>\<open><<<<<<< HEAD\<close> but no
  complete block (nowhere a start marker, later a separator and later an end
  marker) is returned unchanged. The transformation is a total function on strings:
  it raises nothing.
\<close>

theorem incomplete_block_is_left_unchanged:
  assumes "contains content start_marker" and "\<not> has_block content"
  shows "resolve_content content = content"
  using assms(2) by (rule resolve_content_no_block)

theorem incomplete_block_is_left_unchanged_witness:
  "contains ''<<<<<<< HEAD\<newline>A\<newline>=======\<newline>B\<newline>'' start_marker \<and>
   \<not> has_block ''<<<<<<< HEAD\<newline>A\<newline>=======\<newline>B\<newline>'' \<and>
   resolve_content ''<<<<<<< HEAD\<newline>A\<newline>=======\<newline>B\<newline>'' =
   ''<<<<<<< HEAD\<newline>A\<newline>=======\<newline>B\<newline>''"
proof -
  let ?s = "''<<<<<<< HEAD\<newline>A\<newline>=======\<newline>B\<newline>''"
  have c: "contains ?s start_marker" by code_simp
  have "\<not> contains ?s end_marker" by code_simp
  then have n: "\<not> has_block ?s" using has_block_contains by blast
  from c n incomplete_block_is_left_unchanged [OF c n] show ?thesis by blast
qed

text \<open>
  Claim C8. On a content in which no conflict marker is present the transformation
  is the identity, so a second application changes nothing. It is enough that one
  of the three markers is absent.
\<close>

theorem resolved_file_is_a_fixed_point:
  assumes "\<not> contains content start_marker \<or> \<not> contains content separator \<or>
           \<not> contains content end_marker"
  shows "resolve_content content = content \<and>
         resolve_content (resolve_content content) = content"
proof -
  from assms have "\<not> has_block content" using has_block_contains by blast
  then have "resolve_content content = content" by (rule resolve_content_no_block)
  then show ?thesis by simp
qed

theorem resolved_file_is_a_fixed_point_witness:
  "\<not> contains ''const c = 1\<newline>'' start_marker \<and>
   resolve_content ''const c = 1\<newline>'' = ''const c = 1\<newline>'' \<and>
   resolve_content (resolve_content ''const c = 1\<newline>'') = ''const c = 1\<newline>''"
proof -
  have h: "\<not> contains ''const c = 1\<newline>'' start_marker" by code_simp
  then have "\<not> contains ''const c = 1\<newline>'' start_marker \<or>
      \<not> contains ''const c = 1\<newline>'' separator \<or> \<not> contains ''const c = 1\<newline>'' end_marker"
    by blast
  from h resolved_file_is_a_fixed_point [OF this] show ?thesis by blast
qed

text \<open>
  Claim C9. The transformation is not idempotent: text put in by a replacement is
  not scanned again in the same pass. For the content below, whose incoming span
  holds a start marker and a separator of its own, the result of one pass still
  contains \<^verbatim>\<open><<<<<<< HEAD\<close>, and a second pass gives a different result.
\<close>

theorem resolve_content_not_idempotent:
  "\<exists>content. contains (resolve_content content) ''<<<<<<< HEAD'' \<and>
     resolve_content (resolve_content content) \<noteq> resolve_content content"
proof -
  have "contains (resolve_content
          ''<<<<<<< HEAD a ======= <<<<<<< HEAD b ======= c >>>>>>> jules-testing-merges d >>>>>>> jules-testing-merges'')
          ''<<<<<<< HEAD'' \<and>
        resolve_content (resolve_content
          ''<<<<<<< HEAD a ======= <<<<<<< HEAD b ======= c >>>>>>> jules-testing-merges d >>>>>>> jules-testing-merges'') \<noteq>
        resolve_content
          ''<<<<<<< HEAD a ======= <<<<<<< HEAD b ======= c >>>>>>> jules-testing-merges d >>>>>>> jules-testing-merges''"
    by code_simp
  then show ?thesis by blast
qed

text \<open>
  Claim C10. The transformed content is never longer than the input content.
\<close>

theorem resolve_content_never_longer:
  "length (resolve_content content) \<le> length content"
  unfolding resolve_content_def by (rule re_sub_length)

subsection \<open>The Scanner\<close>

text \<open>
  Claim C2. A file met by the walk is put in the candidate list, as its joined
  path, if and only if its name's final extension is \<^verbatim>\<open>.tsx\<close> or \<^verbatim>\<open>.ts\<close>, its directory
  path contains \<^verbatim>\<open>client\<close> or \<^verbatim>\<open>server\<close>, reading it succeeds and its text contains
  \<^verbatim>\<open><<<<<<< HEAD\<close>: the loop body adds the path exactly when \<open>is_candidate\<close> holds, and
  the whole discovery returns \<open>candidates\<close>. In particular a file with another
  extension leaves the list as it is whatever its text, and so does a file whose
  text lacks the marker.
\<close>

theorem scanner_selects_exactly_the_candidates:
  "find_conflict_files sys w = Inr (candidates sys w) \<and>
   scan_file sys w root file acc =
     Inr (if is_candidate sys w root file then acc @ [path_join root file] else acc) \<and>
   (final_extension file \<noteq> ''.tsx'' \<and> final_extension file \<noteq> ''.ts'' \<longrightarrow>
      scan_file sys w root file acc = Inr acc) \<and>
   ((case read_text sys w (path_join root file) of
       Inl e \<Rightarrow> True
     | Inr content \<Rightarrow> \<not> contains content ''<<<<<<< HEAD'') \<longrightarrow>
      scan_file sys w root file acc = Inr acc)"
proof (intro conjI impI)
  show "find_conflict_files sys w = Inr (candidates sys w)"
    by (rule find_conflict_files_spec)
  show "scan_file sys w root file acc =
     Inr (if is_candidate sys w root file then acc @ [path_join root file] else acc)"
    by (rule scan_file_spec)
next
  assume "final_extension file \<noteq> ''.tsx'' \<and> final_extension file \<noteq> ''.ts''"
  then have "\<not> is_candidate sys w root file" by (simp add: is_candidate_def)
  then show "scan_file sys w root file acc = Inr acc" by (simp add: scan_file_spec)
next
  assume "case read_text sys w (path_join root file) of
       Inl e \<Rightarrow> True
     | Inr content \<Rightarrow> \<not> contains content ''<<<<<<< HEAD''"
  then have "\<not> is_candidate sys w root file"
    by (cases "read_text sys w (path_join root file)") (simp_all add: is_candidate_def)
  then show "scan_file sys w root file acc = Inr acc" by (simp add: scan_file_spec)
qed

theorem scanner_selects_exactly_the_candidates_witness:
  "find_conflict_files demo_os demo_world =
     Inr [''./client/a.ts'', ''./client/b.tsx'', ''./server/f.ts''] \<and>
   scan_file demo_os demo_world ''./client'' ''a.ts'' [] = Inr [''./client/a.ts''] \<and>
   final_extension ''e.md'' \<noteq> ''.tsx'' \<and> final_extension ''e.md'' \<noteq> ''.ts'' \<and>
   read_text demo_os demo_world ''./client/e.md'' = Inr demo_conflict \<and>
   scan_file demo_os demo_world ''./client'' ''e.md'' [''./client/a.ts''] =
     Inr [''./client/a.ts''] \<and>
   read_text demo_os demo_world ''./client/c.ts'' = Inr ''const c = 1\<newline>'' \<and>
   scan_file demo_os demo_world ''./client'' ''c.ts'' [''./client/a.ts''] =
     Inr [''./client/a.ts'']"
proof -
  have cs: "candidates demo_os demo_world =
      [''./client/a.ts'', ''./client/b.tsx'', ''./server/f.ts'']"
    by code_simp
  have a: "is_candidate demo_os demo_world ''./client'' ''a.ts''" by code_simp
  have pa: "path_join ''./client'' ''a.ts'' = ''./client/a.ts''" by code_simp
  have e: "final_extension ''e.md'' \<noteq> ''.tsx'' \<and> final_extension ''e.md'' \<noteq> ''.ts''"
    by code_simp
  have re: "read_text demo_os demo_world ''./client/e.md'' = Inr demo_conflict"
    by code_simp
  have rc: "read_text demo_os demo_world ''./client/c.ts'' = Inr ''const c = 1\<newline>''"
    by code_simp
  have c: "case read_text demo_os demo_world (path_join ''./client'' ''c.ts'') of
       Inl e \<Rightarrow> True
     | Inr content \<Rightarrow> \<not> contains content ''<<<<<<< HEAD''"
    by code_simp
  note t1 = scanner_selects_exactly_the_candidates
    [of demo_os demo_world "''./client''" "''a.ts''" "[]"]
  note t2 = scanner_selects_exactly_the_candidates
    [of demo_os demo_world "''./client''" "''e.md''" "[''./client/a.ts'']"]
  note t3 = scanner_selects_exactly_the_candidates
    [of demo_os demo_world "''./client''" "''c.ts''" "[''./client/a.ts'']"]
  from t1 cs have g1: "find_conflict_files demo_os demo_world =
     Inr [''./client/a.ts'', ''./client/b.tsx'', ''./server/f.ts'']" by simp
  from t1 a pa have g2: "scan_file demo_os demo_world ''./client'' ''a.ts'' [] =
     Inr [''./client/a.ts'']" by simp
  from t2 e have g3: "scan_file demo_os demo_world ''./client'' ''e.md'' [''./client/a.ts''] =
     Inr [''./client/a.ts'']" by blast
  from t3 c have g4: "scan_file demo_os demo_world ''./client'' ''c.ts'' [''./client/a.ts''] =
     Inr [''./client/a.ts'']" by blast
  from e have e1: "final_extension ''e.md'' \<noteq> ''.tsx''" and e2: "final_extension ''e.md'' \<noteq> ''.ts''"
    by blast+
  show ?thesis by (intro conjI g1 g2 e1 e2 re g3 rc g4)
qed

text \<open>
  Claim C6. Discovery never fails: it always returns a list. An exception raised
  while a file is read is caught in the loop body, which leaves the list as it is;
  the remaining files of the directory and the remaining directories are scanned
  as if the unreadable file were not there, and its path is not in the result.
\<close>

theorem discovery_swallows_read_errors:
  "(\<exists>conflict_files. find_conflict_files sys w = Inr conflict_files) \<and>
   (read_text sys w (path_join root file) = Inl e \<longrightarrow>
      scan_file sys w root file acc = Inr acc \<and>
      scan_files sys w root (file # files) acc = scan_files sys w root files acc \<and>
      scan_walk sys w ((root, dirs, file # files) # entries) acc =
        scan_walk sys w ((root, dirs, files) # entries) acc \<and>
      (\<forall>conflict_files. find_conflict_files sys w = Inr conflict_files \<longrightarrow>
         path_join root file \<notin> set conflict_files))"
proof (intro conjI impI)
  show "\<exists>conflict_files. find_conflict_files sys w = Inr conflict_files"
    by (rule exI) (rule find_conflict_files_spec)
next
  assume r: "read_text sys w (path_join root file) = Inl e"
  then have n: "\<not> is_candidate sys w root file" by (rule unreadable_not_candidate)
  then show s: "scan_file sys w root file acc = Inr acc" by (simp add: scan_file_spec)
  then show f: "scan_files sys w root (file # files) acc = scan_files sys w root files acc"
    by simp
  then show "scan_walk sys w ((root, dirs, file # files) # entries) acc =
        scan_walk sys w ((root, dirs, files) # entries) acc"
    by simp
  show "\<forall>conflict_files. find_conflict_files sys w = Inr conflict_files \<longrightarrow>
         path_join root file \<notin> set conflict_files"
  proof (intro allI impI)
    fix conflict_files
    assume "find_conflict_files sys w = Inr conflict_files"
    then have c: "conflict_files = candidates sys w" by (simp add: find_conflict_files_spec)
    show "path_join root file \<notin> set conflict_files"
    proof
      assume "path_join root file \<in> set conflict_files"
      with c have "\<exists>content. read_text sys w (path_join root file) = Inr content"
        by (simp add: candidates_readable)
      with r show False by simp
    qed
  qed
qed

theorem discovery_swallows_read_errors_witness:
  "read_text demo_os demo_world (path_join ''./client'' ''d.ts'') = Inl FileNotFoundError \<and>
   scan_files demo_os demo_world ''./client'' [''d.ts'', ''e.md''] [''./client/a.ts''] =
     scan_files demo_os demo_world ''./client'' [''e.md''] [''./client/a.ts''] \<and>
   find_conflict_files demo_os demo_world =
     Inr [''./client/a.ts'', ''./client/b.tsx'', ''./server/f.ts''] \<and>
   path_join ''./client'' ''d.ts'' \<notin>
     set [''./client/a.ts'', ''./client/b.tsx'', ''./server/f.ts'']"
proof -
  have r: "read_text demo_os demo_world (path_join ''./client'' ''d.ts'') =
      Inl FileNotFoundError"
    by code_simp
  have f: "find_conflict_files demo_os demo_world =
      Inr [''./client/a.ts'', ''./client/b.tsx'', ''./server/f.ts'']"
    by code_simp
  note t = discovery_swallows_read_errors
    [of demo_os demo_world "''./client''" "''d.ts''" FileNotFoundError
        "[''./client/a.ts'']" "[''e.md'']" "[]" "[]"]
  from t r have g1:
    "scan_files demo_os demo_world ''./client'' [''d.ts'', ''e.md''] [''./client/a.ts''] =
     scan_files demo_os demo_world ''./client'' [''e.md''] [''./client/a.ts'']"
    by blast
  from t r f have g2: "path_join ''./client'' ''d.ts'' \<notin>
     set [''./client/a.ts'', ''./client/b.tsx'', ''./server/f.ts'']"
    by blast
  show ?thesis by (intro conjI r g1 f g2)
qed

subsection \<open>The Resolver's loop\<close>

text \<open>
  Claim C5. Nothing is caught during resolution. Let the candidate list be
  \<open>before @ p # later\<close>, where \<open>before\<close> may be empty, let the files of \<open>before\<close> be
  resolved without an exception, which leads to the state \<open>st1\<close>, and let \<open>w1\<close> be
  what the world of \<open>st1\<close> has become when \<open>p\<close> is opened: it need not be the world
  the Scanner read, and \<open>p\<close> may have been removed since. If reading \<open>p\<close> in \<open>w1\<close>
  raises \<open>e\<close>, or reading it succeeds and writing it raises \<open>e\<close>, the run ends with
  \<open>e\<close> in the world \<open>w'\<close> reached at that point, and the last line it printed is
  the notice for \<open>p\<close>: no file of \<open>later\<close> is read, written or announced, there is
  no skip to the next file, and the closing line is not printed.
\<close>

theorem resolution_error_aborts_the_run:
  assumes found: "find_conflict_files sys w = Inr (before @ p # later)"
    and ok: "resolve_all sys before
               (print (''Found '' @ str_nat (length (before @ p # later)) @
                       '' files with conflicts'') \<lparr>world = w, stdout = []\<rparr>) =
             (None, st1)"
    and w1: "w1 = os_elapse sys (world st1)"
    and fail: "read_text sys w1 p = Inl e \<and> w' = w1 \<or>
               (\<exists>content. read_text sys w1 p = Inr content \<and>
                  write_text sys w1 p (resolve_content content) = (Some e, w'))"
  shows "main sys w =
           (Some e, \<lparr>world = w', stdout = stdout st1 @ [''Resolving conflicts in '' @ p]\<rparr>)"
proof -
  let ?st1 = "st1\<lparr>world := os_elapse sys (world st1)\<rparr>"
  let ?st2 = "\<lparr>world = w', stdout = stdout st1 @ [''Resolving conflicts in '' @ p]\<rparr>"
  from fail have "resolve_conflicts sys p ?st1 = (Some e, ?st2)"
  proof
    assume "read_text sys w1 p = Inl e \<and> w' = w1"
    with w1 show ?thesis by (simp add: resolve_conflicts_read_error)
  next
    assume "\<exists>content. read_text sys w1 p = Inr content \<and>
              write_text sys w1 p (resolve_content content) = (Some e, w')"
    with w1 show ?thesis by (auto simp: resolve_conflicts_write_error)
  qed
  with ok have "resolve_all sys (before @ p # later)
      (print (''Found '' @ str_nat (length (before @ p # later)) @
              '' files with conflicts'') \<lparr>world = w, stdout = []\<rparr>) = (Some e, ?st2)"
    by (rule resolve_all_abort)
  with found show ?thesis by (simp add: main_def Let_def del: str_nat.simps)
qed

theorem resolution_error_aborts_the_run_witness:
  "find_conflict_files demo_os demo_world =
     Inr ([''./client/a.ts''] @ ''./client/b.tsx'' # [''./server/f.ts'']) \<and>
   read_text demo_os demo_world ''./client/b.tsx'' = Inr demo_conflict \<and>
   main demo_os demo_world =
     (Some FileNotFoundError,
      \<lparr>world =
         [(''./client/a.ts'', ''\<newline>B\<newline>\<newline>''),
          (''./client/c.ts'', ''const c = 1\<newline>''),
          (''./client/e.md'', demo_conflict),
          (''./server/f.ts'', demo_conflict),
          (''./docs/g.ts'', demo_conflict)],
       stdout =
         [''Found 3 files with conflicts'',
          ''Resolving conflicts in ./client/a.ts''] @
         [''Resolving conflicts in '' @ ''./client/b.tsx'']\<rparr>)"
proof -
  let ?w1 = "[(''./client/a.ts'', ''\<newline>B\<newline>\<newline>''),
          (''./client/c.ts'', ''const c = 1\<newline>''),
          (''./client/e.md'', demo_conflict),
          (''./server/f.ts'', demo_conflict),
          (''./docs/g.ts'', demo_conflict)]"
  let ?st1 = "\<lparr>world = ?w1,
      stdout = [''Found 3 files with conflicts'', ''Resolving conflicts in ./client/a.ts'']\<rparr>"
  have found: "find_conflict_files demo_os demo_world =
      Inr ([''./client/a.ts''] @ ''./client/b.tsx'' # [''./server/f.ts''])"
    by code_simp
  have rb: "read_text demo_os demo_world ''./client/b.tsx'' = Inr demo_conflict"
    by code_simp
  have ok: "resolve_all demo_os [''./client/a.ts'']
      (print (''Found '' @
              str_nat (length ([''./client/a.ts''] @ ''./client/b.tsx'' # [''./server/f.ts''])) @
              '' files with conflicts'') \<lparr>world = demo_world, stdout = []\<rparr>) =
      (None, ?st1)"
    by code_simp
  have w1: "?w1 = os_elapse demo_os (world ?st1)"
    by code_simp
  have "read_text demo_os ?w1 ''./client/b.tsx'' = Inl FileNotFoundError \<and> ?w1 = ?w1"
    by code_simp
  then have fail: "read_text demo_os ?w1 ''./client/b.tsx'' = Inl FileNotFoundError \<and>
      ?w1 = ?w1 \<or>
      (\<exists>content. read_text demo_os ?w1 ''./client/b.tsx'' = Inr content \<and>
         write_text demo_os ?w1 ''./client/b.tsx'' (resolve_content content) =
         (Some FileNotFoundError, ?w1))"
    by (rule disjI1)
  have m: "main demo_os demo_world =
      (Some FileNotFoundError,
       \<lparr>world = ?w1, stdout = stdout ?st1 @ [''Resolving conflicts in '' @ ''./client/b.tsx'']\<rparr>)"
    by (rule resolution_error_aborts_the_run [OF found ok w1 fail])
  have "stdout ?st1 =
      [''Found 3 files with conflicts'', ''Resolving conflicts in ./client/a.ts'']"
    by simp
  with m have "main demo_os demo_world =
      (Some FileNotFoundError,
       \<lparr>world = ?w1,
        stdout = [''Found 3 files with conflicts'', ''Resolving conflicts in ./client/a.ts''] @
                 [''Resolving conflicts in '' @ ''./client/b.tsx'']\<rparr>)"
    by (simp only:)
  with found rb show ?thesis by (intro conjI)
qed

end
